theory Spec2Isabelle
  imports Main
begin

section \<open>Python values used by \<open>md2conf/markdown.py\<close> and \<open>md2conf/latex.py\<close>\<close>

text \<open>
  A Python \<open>str\<close> is a sequence of Unicode code points, so a string is a list of
  code points (natural numbers) and \<open>len\<close> is \<open>length\<close>. Literals of the source are
  written \<open>py ''...''\<close>.
\<close>

type_synonym ustr = "nat list"

definition py :: "string \<Rightarrow> ustr" where
  "py s = map of_char s"

datatype py_error =
    IndexError
  | ValueError
  | OverflowError
  | RuntimeError ustr

text \<open>
  \<open>str.isspace\<close> for one code point: the characters that \<open>str.strip()\<close> and
  \<open>str.lstrip()\<close> remove.
\<close>

definition isspace :: "nat \<Rightarrow> bool" where
  "isspace c =
     ((0x09 \<le> c \<and> c \<le> 0x0D) \<or> (0x1C \<le> c \<and> c \<le> 0x20) \<or> c = 0x85 \<or> c = 0xA0
      \<or> c = 0x1680 \<or> (0x2000 \<le> c \<and> c \<le> 0x200A) \<or> c = 0x2028 \<or> c = 0x2029
      \<or> c = 0x202F \<or> c = 0x205F \<or> c = 0x3000)"

definition lstrip :: "ustr \<Rightarrow> ustr" where
  "lstrip s = dropWhile isspace s"

definition rstrip :: "ustr \<Rightarrow> ustr" where
  "rstrip s = rev (dropWhile isspace (rev s))"

definition strip :: "ustr \<Rightarrow> ustr" where
  "strip s = rstrip (lstrip s)"

text \<open>\<open>s.strip(chars)\<close>: strips the code points of \<open>chars\<close> from both ends.\<close>

definition strip_chars :: "ustr \<Rightarrow> ustr \<Rightarrow> ustr" where
  "strip_chars s chars =
     rev (dropWhile (\<lambda>c. c \<in> set chars) (rev (dropWhile (\<lambda>c. c \<in> set chars) s)))"

definition startswith :: "ustr \<Rightarrow> ustr \<Rightarrow> bool" where
  "startswith s p = (take (length p) s = p)"

text \<open>\<open>sub in s\<close> for strings.\<close>

fun contains :: "ustr \<Rightarrow> ustr \<Rightarrow> bool" where
  "contains sub [] = (sub = [])"
| "contains sub (c # cs) = (startswith (c # cs) sub \<or> contains sub cs)"

text \<open>\<open>s.split(sep)\<close> for a separator of one code point, and \<open>sep.join(xs)\<close>.\<close>

fun split_on :: "nat \<Rightarrow> ustr \<Rightarrow> ustr list" where
  "split_on sep [] = [[]]"
| "split_on sep (c # cs) =
     (if c = sep then [] # split_on sep cs
      else (case split_on sep cs of [] \<Rightarrow> [[c]] | w # ws \<Rightarrow> (c # w) # ws))"

fun join :: "ustr \<Rightarrow> ustr list \<Rightarrow> ustr" where
  "join sep [] = []"
| "join sep [x] = x"
| "join sep (x # y # ys) = x @ sep @ join sep (y # ys)"

text \<open>
  Subscription \<open>xs[i]\<close> of a list by an integer: an index from \<open>-len(xs)\<close> to \<open>-1\<close>
  reads from the end, and any index outside \<open>-len(xs) .. len(xs) - 1\<close> raises.
\<close>

definition getitem :: "'a list \<Rightarrow> int \<Rightarrow> py_error + 'a" where
  "getitem xs i =
     (if 0 \<le> i \<and> i < int (length xs) then Inr (xs ! nat i)
      else if i < 0 \<and> - int (length xs) \<le> i then Inr (xs ! nat (int (length xs) + i))
      else Inl IndexError)"

text \<open>\<open>range(start, stop)\<close> and \<open>range(start, stop, -1)\<close>.\<close>

definition range_up :: "int \<Rightarrow> int \<Rightarrow> int list" where
  "range_up start stop = [start..stop - 1]"

definition range_down :: "int \<Rightarrow> int \<Rightarrow> int list" where
  "range_down start stop = rev [stop + 1..start]"

text \<open>The code point of a space, and \<open>' ' * n\<close>.\<close>

definition spaces :: "nat \<Rightarrow> ustr" where
  "spaces n = replicate n 0x20"

section \<open>The heuristic detectors\<close>

text \<open>\<open>s.startswith(('* ', '- ', '+ '))\<close>.\<close>

definition startswith_bullet :: "ustr \<Rightarrow> bool" where
  "startswith_bullet s =
     (startswith s (py ''* '') \<or> startswith s (py ''- '') \<or> startswith s (py ''+ ''))"

text \<open>
  The loop of \<open>_is_likely_2space_system\<close> over \<open>range(start, end)\<close>, appending to
  \<open>space_counts\<close>. Every index of the range is inside the list, so \<open>lines[i]\<close> does
  not raise.
\<close>

fun collect_space_counts :: "ustr list \<Rightarrow> int list \<Rightarrow> nat list \<Rightarrow> nat list" where
  "collect_space_counts lines [] space_counts = space_counts"
| "collect_space_counts lines (i # rest) space_counts =
     (let line = lines ! nat i in
      if strip line \<noteq> [] \<and> startswith_bullet (lstrip line) then
        (let spaces = length line - length (lstrip line) in
         if spaces > 0 then collect_space_counts lines rest (space_counts @ [spaces])
         else collect_space_counts lines rest space_counts)
      else collect_space_counts lines rest space_counts)"

definition is_likely_2space_system :: "ustr list \<Rightarrow> int \<Rightarrow> bool" where
  "is_likely_2space_system lines current_index =
     (let start = max 0 (current_index - 5);
          stop = min (int (length lines)) (current_index + 5);
          space_counts = collect_space_counts lines (range_up start stop) []
      in if space_counts = [] then False
         else list_ex (\<lambda>spaces. spaces mod 4 \<noteq> 0)
                (filter (\<lambda>spaces. spaces mod 2 = 0) space_counts))"

text \<open>
  The backward loop of \<open>_is_list_continuation\<close>; \<open>lines[i]\<close> raises when the index
  is past the end of the list.
\<close>

fun continuation_scan :: "ustr list \<Rightarrow> int list \<Rightarrow> py_error + bool" where
  "continuation_scan lines [] = Inr False"
| "continuation_scan lines (i # rest) =
     (case getitem lines i of
        Inl e \<Rightarrow> Inl e
      | Inr line \<Rightarrow>
          if strip line \<noteq> [] then
            (let stripped = lstrip line in
             if startswith_bullet stripped then Inr True
             else if length line - length stripped = 0 then Inr False
             else continuation_scan lines rest)
          else continuation_scan lines rest)"

definition is_list_continuation :: "ustr list \<Rightarrow> int \<Rightarrow> py_error + bool" where
  "is_list_continuation lines current_index =
     (if current_index = 0 then Inr False
      else continuation_scan lines
             (range_down (current_index - 1) (max (- 1) (current_index - 5))))"

section \<open>The indentation normalizer\<close>

text \<open>
  The state of the loop of \<open>_preprocess_list_indentation\<close>: the output built so far and
  the two flags.
\<close>

record pp_state =
  processed_lines :: "ustr list"
  in_admonition :: bool
  in_code_block :: bool

definition emit :: "ustr \<Rightarrow> pp_state \<Rightarrow> pp_state" where
  "emit line s = s\<lparr>processed_lines := processed_lines s @ [line]\<rparr>"

text \<open>
  The condition of the last \<open>if\<close> of the loop body, with the short-circuit order of
  \<open>and\<close>/\<open>or\<close>: \<open>_is_list_continuation\<close> is only called when the line is an
  even-indented line in a 2-space context that is neither a bullet nor a numbered item.
  \<open>isdigit\<close> is \<open>str.isdigit\<close> on one code point, a table of the Python runtime.
\<close>

definition reindent_test ::
  "(nat \<Rightarrow> bool) \<Rightarrow> ustr list \<Rightarrow> nat \<Rightarrow> ustr \<Rightarrow> nat \<Rightarrow> py_error + bool" where
  "reindent_test isdigit lines i stripped leading_spaces =
     (if leading_spaces mod 2 = 0 \<and> is_likely_2space_system lines (int i) then
        (if startswith_bullet stripped then Inr True
         else if stripped \<noteq> [] \<and> isdigit (hd stripped)
                 \<and> contains (py ''. '') (take 10 stripped) then Inr True
         else is_list_continuation lines (int i))
      else Inr False)"

definition pp_body ::
  "(nat \<Rightarrow> bool) \<Rightarrow> ustr list \<Rightarrow> nat \<Rightarrow> ustr \<Rightarrow> pp_state \<Rightarrow> py_error + pp_state" where
  "pp_body isdigit lines i line s =
     (if strip line = [] then Inr (emit line s)
      else
        let stripped = lstrip line in
        if startswith (strip line) (py ''```'') \<or> startswith (strip line) (py ''~~~'') then
          Inr (emit line (s\<lparr>in_code_block := \<not> in_code_block s\<rparr>))
        else if in_code_block s then Inr (emit line s)
        else if startswith stripped (py ''!!!'') then
          Inr (emit line (s\<lparr>in_admonition := True\<rparr>))
        else
          let s1 = (if in_admonition s \<and> length line - length stripped = 0 \<and> stripped \<noteq> []
                    then s\<lparr>in_admonition := False\<rparr> else s);
              leading_spaces = length line - length (lstrip line)
          in
          if leading_spaces = 0
             \<or> (startswith stripped (py ''`'') \<or> startswith stripped (py ''#'')
                 \<or> startswith stripped (py ''>''))
             \<or> in_admonition s1 then Inr (emit line s1)
          else
            (case reindent_test isdigit lines i stripped leading_spaces of
               Inl e \<Rightarrow> Inl e
             | Inr True \<Rightarrow>
                 (let indent_level = leading_spaces div 2;
                      new_indent = spaces (indent_level * 4)
                  in Inr (emit (new_indent @ stripped) s1))
             | Inr False \<Rightarrow> Inr (emit line s1)))"

text \<open>\<open>for i, line in enumerate(lines)\<close>, from index \<open>i\<close> on.\<close>

fun pp_loop ::
  "(nat \<Rightarrow> bool) \<Rightarrow> ustr list \<Rightarrow> nat \<Rightarrow> ustr list \<Rightarrow> pp_state \<Rightarrow> py_error + pp_state" where
  "pp_loop isdigit lines i [] s = Inr s"
| "pp_loop isdigit lines i (line # rest) s =
     (case pp_body isdigit lines i line s of
        Inl e \<Rightarrow> Inl e
      | Inr s' \<Rightarrow> pp_loop isdigit lines (Suc i) rest s')"

definition pp_init :: pp_state where
  "pp_init = \<lparr>processed_lines = [], in_admonition = False, in_code_block = False\<rparr>"

definition preprocess_list_indentation :: "(nat \<Rightarrow> bool) \<Rightarrow> ustr \<Rightarrow> py_error + ustr" where
  "preprocess_list_indentation isdigit content =
     (let lines = split_on 0x0A content in
      case pp_loop isdigit lines 0 lines pp_init of
        Inl e \<Rightarrow> Inl e
      | Inr s \<Rightarrow> Inr (join (py ''\<newline>'') (processed_lines s)))"

text \<open>
  \<open>str.isdigit\<close> on the ASCII code points, where it is the digits \<open>0\<close> to \<open>9\<close>; it
  instantiates the runtime's table on inputs that are ASCII.
\<close>

definition isdigit_ascii :: "nat \<Rightarrow> bool" where
  "isdigit_ascii c = (0x30 \<le> c \<and> c \<le> 0x39)"

section \<open>The extension hooks\<close>

text \<open>
  \<open>int(item, base=16)\<close> on a string: \<open>to_ascii\<close> is the runtime's conversion of
  non-ASCII whitespace and decimal digits to ASCII (any other non-ASCII code point
  becomes \<open>?\<close>, which no literal contains); \<open>todecimal\<close> is the runtime's table of the
  decimal value of a non-ASCII digit. Then: whitespace around the literal (of the ASCII
  characters, the tab to the carriage return and the space, \<open>c_isspace\<close>), a sign, the
  prefix \<open>0x\<close> or \<open>0X\<close>, and hexadecimal digits with single underscores between them
  (one may follow the prefix). Anything else is a \<open>ValueError\<close>.
\<close>

definition to_ascii :: "(nat \<Rightarrow> nat option) \<Rightarrow> nat \<Rightarrow> nat" where
  "to_ascii todecimal c =
     (if c < 127 then c
      else if isspace c then 0x20
      else (case todecimal c of Some d \<Rightarrow> 0x30 + d | None \<Rightarrow> 0x3F))"

definition c_isspace :: "nat \<Rightarrow> bool" where
  "c_isspace c = ((0x09 \<le> c \<and> c \<le> 0x0D) \<or> c = 0x20)"

definition hex_digit :: "nat \<Rightarrow> nat option" where
  "hex_digit c =
     (if 0x30 \<le> c \<and> c \<le> 0x39 then Some (c - 0x30)
      else if 0x61 \<le> c \<and> c \<le> 0x66 then Some (c - 0x61 + 10)
      else if 0x41 \<le> c \<and> c \<le> 0x46 then Some (c - 0x41 + 10)
      else None)"

text \<open>
  The digits of the literal, most significant first, with the value read so far.
  \<open>prev_digit\<close> says that the code point before was a digit, which an underscore and
  the end of the literal need.
\<close>

fun hex_digits :: "nat \<Rightarrow> bool \<Rightarrow> ustr \<Rightarrow> py_error + nat" where
  "hex_digits acc prev_digit [] = (if prev_digit then Inr acc else Inl ValueError)"
| "hex_digits acc prev_digit (c # cs) =
     (if c = 0x5F then
        (if prev_digit then hex_digits acc False cs else Inl ValueError)
      else (case hex_digit c of
              None \<Rightarrow> Inl ValueError
            | Some d \<Rightarrow> hex_digits (acc * 16 + d) True cs))"

definition int_base16 :: "(nat \<Rightarrow> nat option) \<Rightarrow> ustr \<Rightarrow> py_error + int" where
  "int_base16 todecimal s =
     (let a = map (to_ascii todecimal) s;
          b = rev (dropWhile c_isspace (rev (dropWhile c_isspace a)));
          negative = startswith b (py ''-'');
          c = (if negative \<or> startswith b (py ''+'') then tl b else b);
          has_prefix = (startswith c (py ''0x'') \<or> startswith c (py ''0X''));
          d = (if has_prefix then drop 2 c else c);
          e = (if has_prefix \<and> startswith d (py ''_'') then tl d else d)
      in case hex_digits 0 False e of
           Inl err \<Rightarrow> Inl err
         | Inr n \<Rightarrow> Inr (if negative then - int n else int n))"

text \<open>\<open>chr(i)\<close>: a string of the one code point \<open>i\<close>.\<close>

definition chr :: "int \<Rightarrow> py_error + ustr" where
  "chr i =
     (if i < - (2 ^ 31) \<or> 2 ^ 31 \<le> i then Inl OverflowError
      else if i < 0 \<or> 0x10FFFF < i then Inl ValueError
      else Inr [nat i])"

text \<open>
  The generator expression \<open>chr(int(item, base=16)) for item in uc.split("-")\<close>,
  consumed by \<open>"".join\<close>: the first item that raises ends it.
\<close>

fun decode_items :: "(nat \<Rightarrow> nat option) \<Rightarrow> ustr list \<Rightarrow> py_error + ustr list" where
  "decode_items todecimal [] = Inr []"
| "decode_items todecimal (item # rest) =
     (case int_base16 todecimal item of
        Inl e \<Rightarrow> Inl e
      | Inr n \<Rightarrow>
          (case chr n of
             Inl e \<Rightarrow> Inl e
           | Inr ch \<Rightarrow>
               (case decode_items todecimal rest of
                  Inl e \<Rightarrow> Inl e
                | Inr chs \<Rightarrow> Inr (ch # chs))))"

text \<open>
  An \<open>xml.etree.ElementTree.Element\<close>: its tag, its attribute dictionary in insertion
  order, and its text (\<open>None\<close> until it is set).
\<close>

record element =
  tag :: ustr
  attrib :: "(ustr \<times> ustr) list"
  text_of :: "ustr option"

text \<open>\<open>d[k] = v\<close> on a dictionary in insertion order.\<close>

fun dict_set :: "ustr \<Rightarrow> ustr \<Rightarrow> (ustr \<times> ustr) list \<Rightarrow> (ustr \<times> ustr) list" where
  "dict_set k v [] = [(k, v)]"
| "dict_set k v ((k', v') # d) = (if k' = k then (k, v) # d else (k', v') # dict_set k v d)"

text \<open>
  \<open>_emoji_generator\<close>. The arguments \<open>index\<close>, \<open>title\<close>, \<open>category\<close>, \<open>options\<close> and
  \<open>md\<close> are not read by the function and are left out.
\<close>

definition emoji_generator ::
  "(nat \<Rightarrow> nat option) \<Rightarrow> ustr \<Rightarrow> ustr option \<Rightarrow> ustr option \<Rightarrow> ustr \<Rightarrow> py_error + element" where
  "emoji_generator todecimal shortname alias uc alt =
     (let name = strip_chars (case alias of None \<Rightarrow> shortname
                              | Some a \<Rightarrow> if a \<noteq> [] then a else shortname) (py '':'');
          emoji = \<lparr>tag = py ''x-emoji'', attrib = [(py ''data-shortname'', name)],
                   text_of = None\<rparr>
      in case uc of
           Some u \<Rightarrow>
             (let emoji1 = emoji\<lparr>attrib := dict_set (py ''data-unicode'') u (attrib emoji)\<rparr>
              in case decode_items todecimal (split_on 0x2D u) of
                   Inl e \<Rightarrow> Inl e
                 | Inr chs \<Rightarrow> Inr (emoji1\<lparr>text_of := Some (join [] chs)\<rparr>))
         | None \<Rightarrow> Inr (emoji\<lparr>text_of := Some alt\<rparr>))"

text \<open>
  \<open>_verbatim_formatter\<close>. A list object lives in a store of list objects and
  \<open>classes\<close> is a reference into it (or \<open>None\<close>), so that \<open>classes.insert(0, css_class)\<close>
  changes the object the caller holds; the list built when \<open>classes\<close> is \<open>None\<close> is
  local to the call. \<open>attrs\<close> is a dictionary in insertion order. The arguments
  \<open>options\<close>, \<open>md\<close> and \<open>kwargs\<close> are not read and are left out.
\<close>

type_synonym store = "nat \<Rightarrow> ustr list"

definition verbatim_formatter ::
  "store \<Rightarrow> ustr \<Rightarrow> ustr \<Rightarrow> ustr \<Rightarrow> nat option \<Rightarrow> ustr \<Rightarrow> (ustr \<times> ustr) list option
   \<Rightarrow> store \<times> ustr" where
  "verbatim_formatter st source language css_class classes id_value attrs =
     (let (st1, classes1) =
            (case classes of
               None \<Rightarrow> (st, [css_class])
             | Some r \<Rightarrow> (st(r := css_class # st r), css_class # st r));
          html_id = (if id_value \<noteq> [] then py '' id=\"'' @ id_value @ py ''\"'' else []);
          html_class = py '' class=\"'' @ join (py '' '') classes1 @ py ''\"'';
          html_attrs =
            (case attrs of
               None \<Rightarrow> []
             | Some d \<Rightarrow>
                 if d \<noteq> [] then
                   py '' '' @ join (py '' '') (map (\<lambda>(k, v). k @ py ''=\"'' @ v @ py ''\"'') d)
                 else [])
      in (st1, py ''<div'' @ html_id @ html_class @ html_attrs @ py ''>'' @ source
               @ py ''</div>''))"

section \<open>The math rasterizer\<close>

datatype image_format = Png | Svg

text \<open>
  \<open>_render_latex\<close> is defined at import time by the test
  \<open>importlib.util.find_spec("matplotlib") is None\<close>, here \<open>\<not> installed\<close>. With the
  library installed, \<open>backend\<close> stands for what \<open>matplotlib\<close> writes for a text, a
  format, a resolution and a font size (or the exception it raises). The function
  writes into the buffer \<open>f\<close> and returns nothing, so the model returns the buffer.
\<close>

definition render_latex_into ::
  "bool \<Rightarrow> (ustr \<Rightarrow> image_format \<Rightarrow> int \<Rightarrow> int \<Rightarrow> py_error + nat list)
   \<Rightarrow> ustr \<Rightarrow> nat list \<Rightarrow> image_format \<Rightarrow> int \<Rightarrow> int \<Rightarrow> py_error + nat list" where
  "render_latex_into installed backend expression f fmt dpi font_size =
     (if \<not> installed then
        Inl (RuntimeError (py ''matplotlib not installed; run: `pip install matplotlib`''))
      else (case backend (py ''$'' @ expression @ py ''$'') fmt dpi font_size of
              Inl e \<Rightarrow> Inl e
            | Inr bytes \<Rightarrow> Inr (f @ bytes)))"

definition render_latex ::
  "bool \<Rightarrow> (ustr \<Rightarrow> image_format \<Rightarrow> int \<Rightarrow> int \<Rightarrow> py_error + nat list)
   \<Rightarrow> ustr \<Rightarrow> image_format \<Rightarrow> int \<Rightarrow> int \<Rightarrow> py_error + nat list" where
  "render_latex installed backend expression fmt dpi font_size =
     (case render_latex_into installed backend expression [] fmt dpi font_size of
        Inl e \<Rightarrow> Inl e
      | Inr f \<Rightarrow> Inr f)"

section \<open>Notions used to state the properties\<close>

text \<open>The leading-whitespace count of a line, as the source computes it.\<close>

definition leading :: "ustr \<Rightarrow> nat" where
  "leading line = length line - length (lstrip line)"

text \<open>A non-blank line whose content, after the leading whitespace, starts with a bullet marker.\<close>

definition is_bullet_line :: "ustr \<Rightarrow> bool" where
  "is_bullet_line line = (strip line \<noteq> [] \<and> startswith_bullet (lstrip line))"

text \<open>A bullet line indented by an even amount that is not a multiple of 4.\<close>

definition is_evidence_line :: "ustr \<Rightarrow> bool" where
  "is_evidence_line line =
     (is_bullet_line line \<and> even (leading line) \<and> leading line mod 4 \<noteq> 0)"

text \<open>
  The 2-space detector in the words of the specification: the lines at distance at
  most 5 from the index, on either side, are inspected.
\<close>

definition looks_like_2space_spec :: "ustr list \<Rightarrow> int \<Rightarrow> bool" where
  "looks_like_2space_spec lines i =
     (let window = filter (\<lambda>j. i - 5 \<le> int j \<and> int j \<le> i + 5) [0..<length lines];
          counts = map (\<lambda>j. leading (lines ! j))
                     (filter (\<lambda>j. is_bullet_line (lines ! j)) window)
      in if counts = [] then False
         else list_ex (\<lambda>n. even n \<and> n mod 4 \<noteq> 0) counts)"

text \<open>
  The continuation detector in the words of the specification: the (at most 4) lines
  before the index are read backwards up to the first one that decides, which is a
  non-blank line that starts with a bullet marker or has no leading whitespace.
\<close>

definition decisive :: "ustr \<Rightarrow> bool" where
  "decisive line = (strip line \<noteq> [] \<and> (startswith_bullet (lstrip line) \<or> leading line = 0))"

definition continuation_spec :: "ustr list \<Rightarrow> int \<Rightarrow> bool" where
  "continuation_spec lines i =
     (case find decisive (rev (drop (nat (i - 4)) (take (nat i) lines))) of
        None \<Rightarrow> False
      | Some l \<Rightarrow> startswith_bullet (lstrip l))"

text \<open>
  A fence delimiter: a line that, trimmed, starts with three backticks or three tildes.
  An admonition opener: a line whose content starts with \<open>!!!\<close>.
\<close>

definition is_fence_line :: "ustr \<Rightarrow> bool" where
  "is_fence_line line =
     (strip line \<noteq> [] \<and> (startswith (strip line) (py ''```'') \<or> startswith (strip line) (py ''~~~'')))"

definition is_opener_line :: "ustr \<Rightarrow> bool" where
  "is_opener_line line = startswith (lstrip line) (py ''!!!'')"

text \<open>The state of the loop when it reaches line \<open>j\<close>: the loop run on the lines before it.\<close>

definition state_before :: "(nat \<Rightarrow> bool) \<Rightarrow> ustr list \<Rightarrow> nat \<Rightarrow> py_error + pp_state" where
  "state_before isdigit lines j = pp_loop isdigit lines 0 (take j lines) pp_init"

text \<open>
  The lines that the loop body appends as they are, in the order of its tests: blank
  lines, fence delimiters, lines inside a code block, admonition openers, lines reached
  with the admonition flag set, lines without indentation, lines that open with a
  backtick, \<open>#\<close> or \<open>>\<close>, and lines that fail the test for reindentation.
\<close>

definition unchanged_kind :: "(nat \<Rightarrow> bool) \<Rightarrow> ustr list \<Rightarrow> nat \<Rightarrow> pp_state \<Rightarrow> bool" where
  "unchanged_kind isdigit lines j s =
     (let l = lines ! j in
      strip l = [] \<or> is_fence_line l \<or> in_code_block s \<or> is_opener_line l \<or> in_admonition s
      \<or> leading l = 0
      \<or> startswith (lstrip l) (py ''`'') \<or> startswith (lstrip l) (py ''#'')
      \<or> startswith (lstrip l) (py ''>'')
      \<or> reindent_test isdigit lines j (lstrip l) (leading l) = Inr False)"

text \<open>What the loop body appends for line \<open>j\<close> in state \<open>s\<close>.\<close>

definition emitted_line :: "(nat \<Rightarrow> bool) \<Rightarrow> ustr list \<Rightarrow> nat \<Rightarrow> pp_state \<Rightarrow> ustr" where
  "emitted_line isdigit lines j s =
     (if unchanged_kind isdigit lines j s then lines ! j
      else spaces (leading (lines ! j) div 2 * 4) @ lstrip (lines ! j))"

text \<open>
  The line at which the loop clears the admonition flag: a non-blank line without
  indentation that reaches the test, that is, one that is not a fence delimiter, not
  inside a code block and not itself an admonition opener.
\<close>

definition ends_admonition :: "ustr \<Rightarrow> pp_state \<Rightarrow> bool" where
  "ends_admonition line s =
     (strip line \<noteq> [] \<and> leading line = 0 \<and> \<not> is_fence_line line \<and> \<not> in_code_block s
      \<and> \<not> is_opener_line line)"

text \<open>
  No bullet line indented by an even amount that is not a multiple of 4 is reached
  inside a code block or with the admonition flag set (where it would be kept as it is).
\<close>

definition no_hidden_evidence :: "(nat \<Rightarrow> bool) \<Rightarrow> ustr list \<Rightarrow> bool" where
  "no_hidden_evidence isdigit lines =
     (\<forall>j<length lines. is_evidence_line (lines ! j) \<longrightarrow>
        (\<forall>s. state_before isdigit lines j = Inr s \<longrightarrow> \<not> in_code_block s \<and> \<not> in_admonition s))"

text \<open>
  A closing fence delimiter that matches an opening one, in the sense of the
  specification's glossary: a fence delimiter made of the same marker character, with
  a run of it at least as long as the opening one.
\<close>

definition closes_fence :: "ustr \<Rightarrow> ustr \<Rightarrow> bool" where
  "closes_fence opening line =
     (case (strip opening, strip line) of
        (c # cs, d # ds) \<Rightarrow>
          is_fence_line line \<and> d = c
          \<and> length (takeWhile (\<lambda>x. x = c) (c # cs)) \<le> length (takeWhile (\<lambda>x. x = c) (d # ds))
      | _ \<Rightarrow> False)"

text \<open>
  A line of ordinary text outside fenced blocks that has no indentation: non-blank,
  not a fence delimiter, not an admonition opener, and after an even number of fence
  delimiters.
\<close>

definition ordinary_line :: "ustr list \<Rightarrow> nat \<Rightarrow> bool" where
  "ordinary_line lines k =
     (strip (lines ! k) \<noteq> [] \<and> leading (lines ! k) = 0 \<and> \<not> is_fence_line (lines ! k)
      \<and> \<not> is_opener_line (lines ! k)
      \<and> even (length (filter is_fence_line (take k lines))))"

text \<open>
  A condition on the document alone: every bullet line indented by an even amount that
  is not a multiple of 4 comes after an even number of fence delimiters, and between
  each admonition opener before it and the bullet line there is a line of ordinary text
  without indentation.
\<close>

definition evidence_exposed :: "ustr list \<Rightarrow> bool" where
  "evidence_exposed lines =
     (\<forall>j<length lines. is_evidence_line (lines ! j) \<longrightarrow>
        even (length (filter is_fence_line (take j lines)))
        \<and> (\<forall>a<j. is_opener_line (lines ! a) \<longrightarrow> (\<exists>k. a < k \<and> k < j \<and> ordinary_line lines k)))"

section \<open>Evaluation of literals\<close>

lemma replicate_numeral_step: "replicate (numeral v) x = x # replicate (numeral v - 1) x"
  by (metis Suc_pred' replicate_Suc zero_less_numeral)

lemmas string_eval = py_def strip_def lstrip_def rstrip_def isspace_def startswith_def
  startswith_bullet_def leading_def is_bullet_line_def is_evidence_line_def

section \<open>The detectors\<close>

lemma collect_set: "set (collect_space_counts lines idxs acc) = set acc \<union> {leading (lines ! nat i) | i. i \<in> set idxs \<and> is_bullet_line (lines ! nat i) \<and> leading (lines ! nat i) > 0}"
  by (induction idxs arbitrary: acc) (auto simp: Let_def is_bullet_line_def leading_def)

lemma likely_iff: "is_likely_2space_system lines i = (\<exists>j. max 0 (i - 5) \<le> j \<and> j < min (int (length lines)) (i + 5) \<and> is_evidence_line (lines ! nat j))"
proof -
  let ?lo = "max 0 (i - 5)" and ?hi = "min (int (length lines)) (i + 5)"
  let ?C = "collect_space_counts lines (range_up ?lo ?hi) []"
  have pos: "0 < n" if "n mod 4 \<noteq> 0" for n :: nat
    using that by (cases n) auto
  have mem: "j \<in> set (range_up ?lo ?hi) \<longleftrightarrow> ?lo \<le> j \<and> j < ?hi" for j
    unfolding range_up_def by auto
  have "is_likely_2space_system lines i = (\<exists>n \<in> set ?C. even n \<and> n mod 4 \<noteq> 0)"
    by (auto simp: is_likely_2space_system_def Let_def list_ex_iff)
  also have "\<dots> = (\<exists>j. ?lo \<le> j \<and> j < ?hi \<and> is_evidence_line (lines ! nat j))"
  proof
    assume "\<exists>n \<in> set ?C. even n \<and> n mod 4 \<noteq> 0"
    then obtain n where n: "n \<in> set ?C" "even n" "n mod 4 \<noteq> 0" by blast
    from n(1) obtain j where "n = leading (lines ! nat j)" "j \<in> set (range_up ?lo ?hi)"
      "is_bullet_line (lines ! nat j)"
      unfolding collect_set by auto
    with n(2,3) show "\<exists>j. ?lo \<le> j \<and> j < ?hi \<and> is_evidence_line (lines ! nat j)"
      unfolding is_evidence_line_def mem by blast
  next
    assume "\<exists>j. ?lo \<le> j \<and> j < ?hi \<and> is_evidence_line (lines ! nat j)"
    then obtain j where j: "j \<in> set (range_up ?lo ?hi)" "is_evidence_line (lines ! nat j)"
      unfolding mem by blast
    then have "leading (lines ! nat j) \<in> set ?C"
      unfolding collect_set is_evidence_line_def using pos by blast
    with j(2) show "\<exists>n \<in> set ?C. even n \<and> n mod 4 \<noteq> 0"
      unfolding is_evidence_line_def by blast
  qed
  finally show ?thesis .
qed

lemma scan_find: "\<forall>j \<in> set idxs. j < length lines \<Longrightarrow> continuation_scan lines (map int idxs) = Inr (case find decisive (map ((!) lines) idxs) of None \<Rightarrow> False | Some l \<Rightarrow> startswith_bullet (lstrip l))"
  by (induction idxs) (auto simp: getitem_def Let_def decisive_def leading_def)


lemma upto_map_int: "0 \<le> a \<Longrightarrow> [a..b] = map int [nat a..<nat (b + 1)]"
proof (induction "nat (b + 1 - a)" arbitrary: a)
  case 0
  then show ?case by simp
next
  case (Suc n)
  then have ab: "a \<le> b" by linarith
  have n: "n = nat (b + 1 - (a + 1))" using Suc.hyps(2) by linarith
  have "[a..b] = a # [a + 1..b]" using ab by (simp add: upto_rec1)
  also have "[a + 1..b] = map int [nat (a + 1)..<nat (b + 1)]"
    using Suc.hyps(1)[OF n] Suc.prems by simp
  also have "a # map int [nat (a + 1)..<nat (b + 1)] = map int [nat a..<nat (b + 1)]"
  proof -
    have "nat a < nat (b + 1)" using ab Suc.prems by linarith
    then have "[nat a..<nat (b + 1)] = nat a # [Suc (nat a)..<nat (b + 1)]"
      by (rule upt_conv_Cons)
    moreover have "Suc (nat a) = nat (a + 1)" using Suc.prems by linarith
    ultimately show ?thesis using Suc.prems by simp
  qed
  finally show ?case .
qed

lemma range_down_conv: "1 \<le> i \<Longrightarrow> range_down (i - 1) (max (- 1) (i - 5)) = map int (rev [nat (i - 4)..<nat i])"
proof -
  assume i: "1 \<le> i"
  have "[max (- 1) (i - 5) + 1..i - 1] = map int [nat (max (- 1) (i - 5) + 1)..<nat (i - 1 + 1)]"
    by (rule upto_map_int) simp
  moreover have "nat (max (- 1) (i - 5) + 1) = nat (i - 4)" by linarith
  ultimately show ?thesis by (simp add: range_down_def rev_map)
qed

lemma map_nth_window: "b \<le> length xs \<Longrightarrow> map ((!) xs) [a..<b] = drop a (take b xs)"
  by (rule nth_equalityI) auto

lemma continuation_conv: "i \<le> int (length lines) \<Longrightarrow> is_list_continuation lines i = Inr (continuation_spec lines i)"
proof (cases "1 \<le> i")
  case False
  then have "nat i = 0" by simp
  with False show ?thesis
    by (simp add: is_list_continuation_def continuation_spec_def range_down_def)
next
  case True
  assume le: "i \<le> int (length lines)"
  have b: "\<forall>j \<in> set (rev [nat (i - 4)..<nat i]). j < length lines" using le by auto
  have "nat i \<le> length lines" using le by linarith
  then show ?thesis using True scan_find[OF b]
    by (simp add: is_list_continuation_def range_down_conv continuation_spec_def rev_map[symmetric] map_nth_window)
qed

lemma continuation_raises: "int (length lines) < i \<Longrightarrow> is_list_continuation lines i = Inl IndexError"
proof -
  assume "int (length lines) < i"
  then have "1 \<le> i" "\<not> i - 1 < int (length lines)" "i \<noteq> 0" "0 \<le> i - 1" by linarith+
  moreover have "[max (- 1) (i - 5) + 1..i - 1] = [max (- 1) (i - 5) + 1..i - 1 - 1] @ [i - 1]"
    using \<open>1 \<le> i\<close> by (intro upto_rec2) linarith
  ultimately show ?thesis
    by (simp add: is_list_continuation_def range_down_def getitem_def)
qed


lemma spec_window:
  "looks_like_2space_spec lines i =
     (\<exists>j<length lines. i - 5 \<le> int j \<and> int j \<le> i + 5 \<and> is_evidence_line (lines ! j))"
proof -
  have "looks_like_2space_spec lines i =
      (\<exists>j \<in> {j. j < length lines \<and> i - 5 \<le> int j \<and> int j \<le> i + 5 \<and> is_bullet_line (lines ! j)}.
         even (leading (lines ! j)) \<and> leading (lines ! j) mod 4 \<noteq> 0)"
    unfolding looks_like_2space_spec_def Let_def list_ex_iff by (auto simp: filter_empty_conv)
  then show ?thesis unfolding is_evidence_line_def by blast
qed

lemma window_divergence:
  "looks_like_2space_spec lines i =
     (is_likely_2space_system lines i
      \<or> (0 \<le> i + 5 \<and> i + 5 < int (length lines) \<and> is_evidence_line (lines ! nat (i + 5))))"
proof -
  have code: "is_likely_2space_system lines i =
      (\<exists>j<length lines. i - 5 \<le> int j \<and> int j < i + 5 \<and> is_evidence_line (lines ! j))"
  proof
    assume "is_likely_2space_system lines i"
    then obtain j where j: "max 0 (i - 5) \<le> j" "j < min (int (length lines)) (i + 5)"
        "is_evidence_line (lines ! nat j)"
      unfolding likely_iff by blast
    then have "nat j < length lines" "i - 5 \<le> int (nat j)" "int (nat j) < i + 5" by linarith+
    with j(3) show "\<exists>j<length lines. i - 5 \<le> int j \<and> int j < i + 5 \<and> is_evidence_line (lines ! j)"
      by blast
  next
    assume "\<exists>j<length lines. i - 5 \<le> int j \<and> int j < i + 5 \<and> is_evidence_line (lines ! j)"
    then obtain j where j: "j < length lines" "i - 5 \<le> int j" "int j < i + 5"
        "is_evidence_line (lines ! j)" by blast
    then have "max 0 (i - 5) \<le> int j" "int j < min (int (length lines)) (i + 5)"
        "is_evidence_line (lines ! nat (int j))" by simp_all
    then show "is_likely_2space_system lines i" unfolding likely_iff by blast
  qed
  show ?thesis
  proof
    assume "looks_like_2space_spec lines i"
    then obtain j where j: "j < length lines" "i - 5 \<le> int j" "int j \<le> i + 5"
        "is_evidence_line (lines ! j)" unfolding spec_window by blast
    show "is_likely_2space_system lines i
      \<or> (0 \<le> i + 5 \<and> i + 5 < int (length lines) \<and> is_evidence_line (lines ! nat (i + 5)))"
    proof (cases "int j = i + 5")
      case True
      then have "nat (i + 5) = j" by linarith
      with j True show ?thesis by simp
    next
      case False
      with j have "int j < i + 5" by simp
      with j code show ?thesis by blast
    qed
  next
    assume "is_likely_2space_system lines i
      \<or> (0 \<le> i + 5 \<and> i + 5 < int (length lines) \<and> is_evidence_line (lines ! nat (i + 5)))"
    then show "looks_like_2space_spec lines i"
    proof
      assume "is_likely_2space_system lines i"
      then obtain j where "j < length lines" "i - 5 \<le> int j" "int j < i + 5"
        "is_evidence_line (lines ! j)" unfolding code by blast
      then show ?thesis unfolding spec_window by (intro exI[of _ j]) simp
    next
      assume a: "0 \<le> i + 5 \<and> i + 5 < int (length lines) \<and> is_evidence_line (lines ! nat (i + 5))"
      then have "nat (i + 5) < length lines" "i - 5 \<le> int (nat (i + 5))" "int (nat (i + 5)) \<le> i + 5"
        by linarith+
      with a show ?thesis unfolding spec_window by blast
    qed
  qed
qed

text \<open>
  C2. The 2-space detector reads \<open>range(max(0, i - 5), min(len(lines), i + 5))\<close>: the five
  lines before the index, the line itself and the four lines after it, while the
  specification has it read five lines after the index; the two agree on everything
  but the line at \<open>i + 5\<close> (lemma \<open>window_divergence\<close>). With a 2-space bullet line only
  at distance 5 after the index, the code answers false and the specified detector true.
\<close>

theorem C2_window_misses_fifth_line_after:
  "is_likely_2space_system [py ''    - a'', [], [], [], [], py ''  - b''] 0 = False
   \<and> looks_like_2space_spec [py ''    - a'', [], [], [], [], py ''  - b''] 0 = True"
  by (simp add: is_likely_2space_system_def looks_like_2space_spec_def range_up_def
      upto.simps[of 0] upto.simps[of 1] string_eval)

text \<open>
  C5. The continuation detector reads the lines before the index backwards, at most 4 of
  them, up to the first non-blank line that starts with a bullet marker (true) or has no
  leading whitespace (false); it is false when no such line is among them. An index
  past the end of the line array raises \<open>IndexError\<close>.
\<close>

theorem C5_list_continuation:
  "is_list_continuation lines i =
     (if int (length lines) < i then Inl IndexError else Inr (continuation_spec lines i))"
  using continuation_conv[of i lines] continuation_raises[of lines i] by simp

theorem C5_list_continuation_witness:
  "is_list_continuation [py ''- a'', [], py ''  b'', py ''  c''] 3 = Inr True
   \<and> is_list_continuation [py ''- a'', py ''b'', py ''  c''] 2 = Inr False
   \<and> is_list_continuation
        [py ''- a'', py '' b'', py '' c'', py '' d'', py '' e'', py ''  f''] 5 = Inr False
   \<and> is_list_continuation [py ''- a''] 2 = Inl IndexError"
  using C5_list_continuation[of "[py ''- a'', [], py ''  b'', py ''  c'']" 3]
    C5_list_continuation[of "[py ''- a'', py ''b'', py ''  c'']" 2]
    C5_list_continuation[of
      "[py ''- a'', py '' b'', py '' c'', py '' d'', py '' e'', py ''  f'']" 5]
    C5_list_continuation[of "[py ''- a'']" 2]
  by (simp add: continuation_spec_def decisive_def string_eval)

section \<open>The extension hooks and the rasterizer\<close>

lemma join_Cons: "join sep (x # xs) = x @ concat (map (\<lambda>c. sep @ c) xs)"
  by (induction xs arbitrary: x) auto

text \<open>
  C8. The fenced-block formatter returns a \<open>div\<close> whose opening tag has the \<open>id\<close>
  attribute exactly when \<open>id_value\<close> is not empty, then the \<open>class\<close> attribute, whose
  value is \<open>css_class\<close> followed by each class the caller supplied, then one
  \<open>key="value"\<close> for each entry of \<open>attrs\<close>; its content is \<open>source\<close> as it is. For the
  source \<open>x^2\<close> and the class \<open>arithmatex\<close> alone it is
  \<open><div class="arithmatex">x^2</div>\<close>.
\<close>

theorem C8_verbatim_formatter:
  "snd (verbatim_formatter st source language css_class classes id_value attrs) =
     py ''<div'' @ (if id_value = [] then [] else py '' id=\"'' @ id_value @ py ''\"'')
     @ py '' class=\"'' @ css_class
     @ concat (map (\<lambda>c. py '' '' @ c) (case classes of None \<Rightarrow> [] | Some r \<Rightarrow> st r)) @ py ''\"''
     @ (case attrs of None \<Rightarrow> []
        | Some d \<Rightarrow> concat (map (\<lambda>(k, v). py '' '' @ k @ py ''=\"'' @ v @ py ''\"'') d))
     @ py ''>'' @ source @ py ''</div>''
   \<and> snd (verbatim_formatter st (py ''x^2'') language (py ''arithmatex'') None [] None)
       = py ''<div class=\"arithmatex\">x^2</div>''"
proof
  have attrs: "d \<noteq> [] \<Longrightarrow> py '' '' @ join (py '' '') (map (\<lambda>(k, v). k @ py ''=\"'' @ v @ py ''\"'') d)
      = concat (map (\<lambda>(k, v). py '' '' @ k @ py ''=\"'' @ v @ py ''\"'') d)" for d :: "(ustr \<times> ustr) list"
    by (cases d) (auto simp: join_Cons comp_def case_prod_unfold)
  show "snd (verbatim_formatter st source language css_class classes id_value attrs) =
     py ''<div'' @ (if id_value = [] then [] else py '' id=\"'' @ id_value @ py ''\"'')
     @ py '' class=\"'' @ css_class
     @ concat (map (\<lambda>c. py '' '' @ c) (case classes of None \<Rightarrow> [] | Some r \<Rightarrow> st r)) @ py ''\"''
     @ (case attrs of None \<Rightarrow> []
        | Some d \<Rightarrow> concat (map (\<lambda>(k, v). py '' '' @ k @ py ''=\"'' @ v @ py ''\"'') d))
     @ py ''>'' @ source @ py ''</div>''"
    using attrs by (auto simp: verbatim_formatter_def join_Cons split: option.splits)
  show "snd (verbatim_formatter st (py ''x^2'') language (py ''arithmatex'') None [] None)
       = py ''<div class=\"arithmatex\">x^2</div>''"
    by (simp add: verbatim_formatter_def py_def)
qed

theorem C8_verbatim_formatter_witness:
  "snd (verbatim_formatter (\<lambda>r. [py ''b'']) (py ''x'') (py ''math'') (py ''a'') (Some 0) (py ''i'')
          (Some [(py ''k'', py ''v'')]))
     = py ''<div id=\"i\" class=\"a b\" k=\"v\">x</div>''"
  using C8_verbatim_formatter[of "\<lambda>r. [py ''b'']" "py ''x''" "py ''math''" "py ''a''" "Some 0" "py ''i''"
      "Some [(py ''k'', py ''v'')]"]
  by (simp add: py_def)

text \<open>
  C9. Without \<open>matplotlib\<close>, \<open>render_latex\<close> raises the \<open>RuntimeError\<close> that names
  the missing library, for every expression, format, resolution and font size, and
  returns no bytes; with the library installed the result is the one of the library.
\<close>

theorem C9_render_latex_unavailable:
  "render_latex False backend expression fmt dpi font_size
     = Inl (RuntimeError (py ''matplotlib not installed; run: `pip install matplotlib`''))
   \<and> render_latex True backend expression fmt dpi font_size
     = backend (py ''$'' @ expression @ py ''$'') fmt dpi font_size"
  by (simp add: render_latex_def render_latex_into_def split: sum.splits)

text \<open>
  C10. Called with a list of classes, the formatter inserts \<open>css_class\<close> at the front of
  that very list object: after the call the caller's list starts with \<open>css_class\<close> and
  no other list has changed. Called without one, it changes no list of the caller.
\<close>

theorem C10_classes_mutated:
  "fst (verbatim_formatter st source language css_class (Some r) id_value attrs)
     = st(r := css_class # st r)
   \<and> fst (verbatim_formatter st source language css_class None id_value attrs) = st"
  by (simp add: verbatim_formatter_def)

theorem C10_classes_mutated_witness:
  "fst (verbatim_formatter (\<lambda>r. [py ''b'']) (py ''x'') (py ''math'') (py ''a'') (Some 0) [] None) 0
     = [py ''a'', py ''b'']"
  using C10_classes_mutated[of "\<lambda>r. [py ''b'']" "py ''x''" "py ''math''" "py ''a''" 0 "[]" None]
  by simp

subsection \<open>The emoji generator\<close>

lemma join_empty_sep: "join [] xs = concat xs"
  by (cases xs) (simp_all add: join_Cons)

lemma map_of_dict_set: "map_of (dict_set k v d) k = Some v"
  by (induction d) auto

lemma chr_Inr: "chr n = Inr ch \<Longrightarrow> 0 \<le> n \<and> n \<le> 0x10FFFF \<and> ch = [nat n]"
  unfolding chr_def by (simp split: if_splits)

lemma decode_items_Inr:
  "decode_items td items = Inr chs \<Longrightarrow>
     list_all2 (\<lambda>item ch. \<exists>n. int_base16 td item = Inr n \<and> 0 \<le> n \<and> n \<le> 0x10FFFF \<and> ch = [nat n])
       items chs"
proof (induction items arbitrary: chs)
  case Nil
  then show ?case by simp
next
  case (Cons item rest)
  from Cons.prems obtain n where n: "int_base16 td item = Inr n"
    by (cases "int_base16 td item") auto
  from Cons.prems n obtain ch where ch: "chr n = Inr ch"
    by (cases "chr n") auto
  from Cons.prems n ch obtain chs' where chs': "decode_items td rest = Inr chs'"
    by (cases "decode_items td rest") auto
  from Cons.prems n ch chs' have chs: "chs = ch # chs'" by simp
  from chr_Inr[OF ch] n
  have "\<exists>n. int_base16 td item = Inr n \<and> 0 \<le> n \<and> n \<le> 0x10FFFF \<and> ch = [nat n]"
    by blast
  with Cons.IH[OF chs'] show ?case unfolding chs by simp
qed

lemma int_1f604: "int_base16 td (py ''1f604'') = Inr 0x1F604"
  by (simp add: int_base16_def py_def to_ascii_def c_isspace_def startswith_def hex_digit_def)

text \<open>
  C7. Without a codepoint sequence the emoji generator returns an element whose text is
  the fallback text. With a codepoint sequence \<open>uc\<close>, the element it returns has
  \<open>data-unicode\<close> equal to \<open>uc\<close> and, as text, the concatenation of one character for
  each item between the hyphens of \<open>uc\<close>, the character whose code point is the value of
  the item read as a hexadecimal number. For \<open>smile\<close>, \<open>:smile:\<close> and \<open>1f604\<close> the text
  is the one character U+1F604 and \<open>data-unicode\<close> is \<open>1f604\<close>.
\<close>

theorem C7_emoji_generator:
  "(\<exists>e. emoji_generator td shortname alias None alt = Inr e \<and> text_of e = Some alt)
   \<and> (\<forall>e. emoji_generator td shortname alias (Some u) alt = Inr e \<longrightarrow>
          map_of (attrib e) (py ''data-unicode'') = Some u
          \<and> (\<exists>chs. list_all2 (\<lambda>item ch. \<exists>n. int_base16 td item = Inr n \<and> 0 \<le> n
                                  \<and> n \<le> 0x10FFFF \<and> ch = [nat n]) (split_on 0x2D u) chs
                   \<and> text_of e = Some (concat chs)))
   \<and> emoji_generator td (py ''smile'') (Some (py '':smile:'')) (Some (py ''1f604'')) alt
       = Inr \<lparr>tag = py ''x-emoji'',
              attrib = [(py ''data-shortname'', py ''smile''), (py ''data-unicode'', py ''1f604'')],
              text_of = Some [0x1F604]\<rparr>"
proof (intro conjI allI impI)
  show "\<exists>e. emoji_generator td shortname alias None alt = Inr e \<and> text_of e = Some alt"
    by (simp add: emoji_generator_def)
next
  fix e assume a: "emoji_generator td shortname alias (Some u) alt = Inr e"
  then obtain chs where chs: "decode_items td (split_on 0x2D u) = Inr chs"
    by (cases "decode_items td (split_on 0x2D u)") (auto simp: emoji_generator_def)
  with a show "map_of (attrib e) (py ''data-unicode'') = Some u"
    by (auto simp: emoji_generator_def py_def)
  from a chs have "text_of e = Some (concat chs)"
    by (auto simp: emoji_generator_def join_empty_sep)
  with chs show "\<exists>chs. list_all2 (\<lambda>item ch. \<exists>n. int_base16 td item = Inr n \<and> 0 \<le> n
                                  \<and> n \<le> 0x10FFFF \<and> ch = [nat n]) (split_on 0x2D u) chs
                   \<and> text_of e = Some (concat chs)"
    using decode_items_Inr by blast
next
  have s: "split_on 0x2D (py ''1f604'') = [py ''1f604'']" by (simp add: py_def)
  have n: "strip_chars (py '':smile:'') (py '':'') = py ''smile''"
    by (simp add: strip_chars_def py_def)
  have p: "py '':smile:'' \<noteq> []" by (simp add: py_def)
  have d: "py ''data-shortname'' \<noteq> py ''data-unicode''" by (simp add: py_def)
  show "emoji_generator td (py ''smile'') (Some (py '':smile:'')) (Some (py ''1f604'')) alt
       = Inr \<lparr>tag = py ''x-emoji'',
              attrib = [(py ''data-shortname'', py ''smile''), (py ''data-unicode'', py ''1f604'')],
              text_of = Some [0x1F604]\<rparr>"
    by (simp add: emoji_generator_def s n p d int_1f604 chr_def)
qed

theorem C7_emoji_generator_witness:
  "emoji_generator Map.empty (py ''flag_hu'') None (Some (py ''1f1ed-1f1fa'')) (py ''hu'')
     = Inr \<lparr>tag = py ''x-emoji'',
            attrib = [(py ''data-shortname'', py ''flag_hu''), (py ''data-unicode'', py ''1f1ed-1f1fa'')],
            text_of = Some [0x1F1ED, 0x1F1FA]\<rparr>
   \<and> map_of [(py ''data-shortname'', py ''flag_hu''), (py ''data-unicode'', py ''1f1ed-1f1fa'')]
        (py ''data-unicode'') = Some (py ''1f1ed-1f1fa'')"
proof -
  have e: "emoji_generator Map.empty (py ''flag_hu'') None (Some (py ''1f1ed-1f1fa'')) (py ''hu'')
     = Inr \<lparr>tag = py ''x-emoji'',
            attrib = [(py ''data-shortname'', py ''flag_hu''), (py ''data-unicode'', py ''1f1ed-1f1fa'')],
            text_of = Some [0x1F1ED, 0x1F1FA]\<rparr>"
    by (simp add: emoji_generator_def py_def strip_chars_def int_base16_def to_ascii_def
        c_isspace_def startswith_def hex_digit_def chr_def)
  from C7_emoji_generator[of Map.empty "py ''flag_hu''" None "py ''hu''" "py ''1f1ed-1f1fa''"] e
  show ?thesis by auto
qed

section \<open>The normalizer\<close>

lemmas pp_eval = preprocess_list_indentation_def py_def pp_init_def pp_body_def emit_def
  strip_def lstrip_def rstrip_def isspace_def startswith_def reindent_test_def
  is_likely_2space_system_def range_up_def upto.simps[of 0] upto.simps[of 1]
  startswith_bullet_def spaces_def replicate_numeral_step
  is_list_continuation_def range_down_def getitem_def isdigit_ascii_def

lemma isspace_space: "isspace 0x20"
  by (simp add: isspace_def)

lemma lstrip_idem: "lstrip (lstrip l) = lstrip l"
  by (simp add: lstrip_def dropWhile_idem)

lemma lstrip_spaces: "lstrip (spaces n @ lstrip l) = lstrip l"
  unfolding lstrip_def spaces_def using isspace_space
  by (induction n) (simp_all add: dropWhile_idem)

lemma strip_spaces: "strip (spaces n @ lstrip l) = strip l"
  by (simp add: strip_def lstrip_spaces)

lemma leading_spaces: "leading (spaces n @ lstrip l) = n"
  by (simp add: leading_def lstrip_spaces) (simp add: spaces_def)

lemma reindent_test_total:
  "j \<le> length lines \<Longrightarrow> \<exists>b. reindent_test isdigit lines j stripped n = Inr b"
  by (auto simp: reindent_test_def continuation_conv)

lemma strip_lstrip_Nil: "lstrip l = [] \<Longrightarrow> strip l = []"
  by (simp add: strip_def rstrip_def)

lemma pp_body_out:
  assumes "j < length lines"
  shows "\<exists>s'. pp_body isdigit lines j (lines ! j) s = Inr s'
      \<and> processed_lines s' = processed_lines s @
           [if unchanged_kind isdigit lines j s then lines ! j
            else spaces (leading (lines ! j) div 2 * 4) @ lstrip (lines ! j)]"
proof -
  from assms obtain b where b: "reindent_test isdigit lines j (lstrip (lines ! j)) (leading (lines ! j)) = Inr b"
    using reindent_test_total[of j lines] by (meson less_imp_le)
  show ?thesis
    using b
    by (cases b) (auto simp: pp_body_def unchanged_kind_def Let_def emit_def is_fence_line_def
        is_opener_line_def leading_def)
qed

lemma pp_body_code:
  "pp_body isdigit lines j line s = Inr s' \<Longrightarrow>
     in_code_block s' = (if is_fence_line line then \<not> in_code_block s else in_code_block s)"
  by (auto simp: pp_body_def Let_def emit_def is_fence_line_def split: if_splits sum.splits bool.splits)

lemma pp_body_adm:
  "pp_body isdigit lines j line s = Inr s' \<Longrightarrow>
     in_admonition s' =
       (if strip line = [] \<or> is_fence_line line \<or> in_code_block s then in_admonition s
        else if is_opener_line line then True
        else if leading line = 0 then False
        else in_admonition s)"
  by (auto simp: pp_body_def Let_def emit_def is_fence_line_def is_opener_line_def leading_def
      strip_lstrip_Nil split: if_splits sum.splits bool.splits)

lemma pp_loop_append:
  "pp_loop isdigit lines i (xs @ ys) s =
     (case pp_loop isdigit lines i xs s of
        Inl e \<Rightarrow> Inl e
      | Inr s' \<Rightarrow> pp_loop isdigit lines (i + length xs) ys s')"
  by (induction xs arbitrary: i s) (auto split: sum.splits)

lemma state_before_0: "state_before isdigit lines 0 = Inr pp_init"
  by (simp add: state_before_def)

lemma state_before_Suc:
  assumes "j < length lines"
  shows "state_before isdigit lines (Suc j) =
     (case state_before isdigit lines j of
        Inl e \<Rightarrow> Inl e
      | Inr s \<Rightarrow> pp_body isdigit lines j (lines ! j) s)"
proof -
  have "take (Suc j) lines = take j lines @ [lines ! j]"
    using assms by (rule take_Suc_conv_app_nth)
  moreover have "length (take j lines) = j" using assms by simp
  ultimately show ?thesis
    by (simp add: state_before_def pp_loop_append split: sum.splits)
qed

lemma state_before_run:
  "j \<le> length lines \<Longrightarrow>
     \<exists>s. state_before isdigit lines j = Inr s \<and> length (processed_lines s) = j
       \<and> (\<forall>k<j. \<exists>sk. state_before isdigit lines k = Inr sk
              \<and> processed_lines s ! k = emitted_line isdigit lines k sk)"
proof (induction j)
  case 0
  then show ?case by (simp add: state_before_0 pp_init_def)
next
  case (Suc j)
  then have j: "j < length lines" by simp
  from Suc obtain s where s: "state_before isdigit lines j = Inr s"
      "length (processed_lines s) = j"
      "\<forall>k<j. \<exists>sk. state_before isdigit lines k = Inr sk
              \<and> processed_lines s ! k = emitted_line isdigit lines k sk"
    by auto
  from pp_body_out[OF j, of isdigit s] obtain s' where s':
      "pp_body isdigit lines j (lines ! j) s = Inr s'"
      "processed_lines s' = processed_lines s @ [emitted_line isdigit lines j s]"
    unfolding emitted_line_def by blast
  have a: "state_before isdigit lines (Suc j) = Inr s'"
    using state_before_Suc[OF j, of isdigit] s(1) s'(1) by simp
  have b: "length (processed_lines s') = Suc j" using s'(2) s(2) by simp
  have c: "\<exists>sk. state_before isdigit lines k = Inr sk
              \<and> processed_lines s' ! k = emitted_line isdigit lines k sk" if "k < Suc j" for k
  proof (cases "k = j")
    case True
    then show ?thesis using s(1) s(2) s'(2) by (simp add: nth_append)
  next
    case False
    with that have "k < j" by simp
    with s(3) s(2) s'(2) show ?thesis by (simp add: nth_append)
  qed
  from a b c show ?case by blast
qed

lemma state_before_code:
  "j \<le> length lines \<Longrightarrow> state_before isdigit lines j = Inr s \<Longrightarrow>
     in_code_block s = odd (length (filter is_fence_line (take j lines)))"
proof (induction j arbitrary: s)
  case 0
  then show ?case by (auto simp: state_before_0 pp_init_def)
next
  case (Suc j)
  then have j: "j < length lines" by simp
  from state_before_run[of j lines isdigit] j obtain sj where sj: "state_before isdigit lines j = Inr sj"
    by auto
  with Suc.prems(2) state_before_Suc[OF j, of isdigit]
  have body: "pp_body isdigit lines j (lines ! j) sj = Inr s" by simp
  have "in_code_block sj = odd (length (filter is_fence_line (take j lines)))"
    using Suc.IH[OF _ sj] j by simp
  with pp_body_code[OF body] show ?case
    using j by (simp add: take_Suc_conv_app_nth)
qed

lemma split_on_nonempty: "split_on c s \<noteq> []"
  by (induction s) (auto split: list.splits)

lemma split_on_no_sep: "l \<in> set (split_on c s) \<Longrightarrow> c \<notin> set l"
  by (induction s arbitrary: l) (auto split: list.splits if_splits)

lemma split_on_append_no_sep:
  "c \<notin> set l \<Longrightarrow> split_on c (l @ c # s) = l # split_on c s"
  by (induction l) (auto split: list.splits simp: split_on_nonempty)

lemma split_on_no_sep_id: "c \<notin> set l \<Longrightarrow> split_on c l = [l]"
  by (induction l) (auto split: list.splits)

lemma split_join_Cons:
  "\<forall>l \<in> set (x # ls). c \<notin> set l \<Longrightarrow> split_on c (join [c] (x # ls)) = x # ls"
proof (induction ls arbitrary: x)
  case Nil
  then show ?case by (simp add: split_on_no_sep_id)
next
  case (Cons y ys)
  have "join [c] (x # y # ys) = x @ c # join [c] (y # ys)" by simp
  moreover have "c \<notin> set x" using Cons.prems by simp
  moreover have "split_on c (join [c] (y # ys)) = y # ys"
    using Cons.IH[of y] Cons.prems by simp
  ultimately show ?case by (simp add: split_on_append_no_sep del: join.simps)
qed

lemma split_join:
  assumes "ls \<noteq> []" and "\<forall>l \<in> set ls. c \<notin> set l"
  shows "split_on c (join [c] ls) = ls"
proof -
  from assms(1) obtain x xs where ls: "ls = x # xs" by (cases ls) auto
  show ?thesis using assms(2) unfolding ls by (rule split_join_Cons)
qed

lemma py_newline: "py ''\<newline>'' = [0x0A]"
  by (simp add: py_def)

lemma emitted_no_nl:
  assumes "c \<notin> set (lines ! j)" and "c \<noteq> 0x20"
  shows "c \<notin> set (emitted_line isdigit lines j s)"
proof -
  have "set (lstrip (lines ! j)) \<subseteq> set (lines ! j)"
    unfolding lstrip_def by (auto dest: set_dropWhileD)
  with assms show ?thesis
    by (auto simp: emitted_line_def spaces_def)
qed

lemma preprocess_run:
  fixes content :: ustr
  defines "lines \<equiv> split_on 0x0A content"
  shows "\<exists>out. preprocess_list_indentation isdigit content = Inr (join [0x0A] out)
      \<and> split_on 0x0A (join [0x0A] out) = out
      \<and> length out = length lines
      \<and> (\<forall>k<length lines. \<exists>sk. state_before isdigit lines k = Inr sk
             \<and> out ! k = emitted_line isdigit lines k sk)"
proof -
  from state_before_run[of "length lines" lines isdigit]
  obtain s where s: "state_before isdigit lines (length lines) = Inr s"
      "length (processed_lines s) = length lines"
      "\<forall>k<length lines. \<exists>sk. state_before isdigit lines k = Inr sk
             \<and> processed_lines s ! k = emitted_line isdigit lines k sk"
    by auto
  let ?out = "processed_lines s"
  have run: "pp_loop isdigit lines 0 lines pp_init = Inr s"
    using s(1) by (simp add: state_before_def)
  have a: "preprocess_list_indentation isdigit content = Inr (join [0x0A] ?out)"
    using run by (simp add: preprocess_list_indentation_def lines_def[symmetric] py_newline)
  have ne: "?out \<noteq> []"
    using s(2) split_on_nonempty[of "0x0A" content] by (auto simp: lines_def)
  have nonl: "\<forall>l \<in> set ?out. 0x0A \<notin> set l"
  proof
    fix l assume "l \<in> set ?out"
    then obtain k where k: "k < length ?out" "l = ?out ! k" by (auto simp: in_set_conv_nth)
    with s(2,3) obtain sk where sk: "l = emitted_line isdigit lines k sk" by auto
    have "lines ! k \<in> set lines" using k(1) s(2) by simp
    then have "0x0A \<notin> set (lines ! k)" unfolding lines_def by (rule split_on_no_sep)
    then show "0x0A \<notin> set l" unfolding sk by (rule emitted_no_nl) simp
  qed
  have b: "split_on 0x0A (join [0x0A] ?out) = ?out"
    using ne nonl by (rule split_join)
  from a b s(2,3) show ?thesis by blast
qed

text \<open>
  C3, as amended. A line that comes after an odd number of fence delimiters, a fence
  delimiter being any line that, trimmed, starts with three backticks or three tildes,
  is returned as it is, whatever its indentation and content. These are the lines
  between a fence delimiter and the next one, and the next one itself.
\<close>

theorem C3_fenced_lines_unchanged:
  assumes "preprocess_list_indentation isdigit content = Inr result"
    and "j < length (split_on 0x0A content)"
    and "odd (length (filter is_fence_line (take j (split_on 0x0A content))))"
  shows "split_on 0x0A result ! j = split_on 0x0A content ! j"
proof -
  let ?lines = "split_on 0x0A content"
  from preprocess_run[of isdigit content] obtain out where out:
      "preprocess_list_indentation isdigit content = Inr (join [0x0A] out)"
      "split_on 0x0A (join [0x0A] out) = out"
      "\<forall>k<length ?lines. \<exists>sk. state_before isdigit ?lines k = Inr sk
             \<and> out ! k = emitted_line isdigit ?lines k sk"
    by blast
  from out(1) assms(1) have r: "result = join [0x0A] out" by simp
  from out(3) assms(2) obtain sj where sj: "state_before isdigit ?lines j = Inr sj"
      "out ! j = emitted_line isdigit ?lines j sj"
    by blast
  have "in_code_block sj"
    using state_before_code[OF _ sj(1)] assms(2,3) by simp
  then have "emitted_line isdigit ?lines j sj = ?lines ! j"
    by (simp add: emitted_line_def unchanged_kind_def)
  with sj(2) out(2) r show ?thesis by simp
qed

theorem C3_fenced_lines_unchanged_witness:
  "preprocess_list_indentation isdigit_ascii (py ''~~~\<newline>  - x\<newline>~~~\<newline>    - y'')
     = Inr (py ''~~~\<newline>  - x\<newline>~~~\<newline>        - y'')
   \<and> odd (length (filter is_fence_line
            (take 1 (split_on 0x0A (py ''~~~\<newline>  - x\<newline>~~~\<newline>    - y'')))))
   \<and> split_on 0x0A (py ''~~~\<newline>  - x\<newline>~~~\<newline>        - y'') ! 1 = py ''  - x''"
proof -
  let ?C = "py ''~~~\<newline>  - x\<newline>~~~\<newline>    - y''"
  let ?R = "py ''~~~\<newline>  - x\<newline>~~~\<newline>        - y''"
  have p: "preprocess_list_indentation isdigit_ascii ?C = Inr ?R"
    by (simp add: pp_eval)
  have j: "1 < length (split_on 0x0A ?C)"
    by (simp add: py_def)
  have o: "odd (length (filter is_fence_line (take 1 (split_on 0x0A ?C))))"
    by (simp add: py_def is_fence_line_def strip_def lstrip_def rstrip_def isspace_def
        startswith_def)
  have l: "split_on 0x0A ?C ! 1 = py ''  - x''"
    by (simp add: py_def)
  from C3_fenced_lines_unchanged[OF p j o] p o l show ?thesis by simp
qed

text \<open>
  C3 as stated fails: the delimiter \<open>~~~\<close> inside a block opened by \<open>```\<close> does not
  close that block, yet it switches the code-block flag off, and the list line after
  it, which lies between the opening delimiter and the delimiter that matches it, is
  reindented.
\<close>

theorem C3_line_between_matching_fences_reindented:
  "is_fence_line (py ''```'')
   \<and> \<not> closes_fence (py ''```'') (py ''~~~'')
   \<and> \<not> closes_fence (py ''```'') (py ''  - x'')
   \<and> closes_fence (py ''```'') (py ''```'')
   \<and> split_on 0x0A (py ''```\<newline>~~~\<newline>  - x\<newline>```'')
       = [py ''```'', py ''~~~'', py ''  - x'', py ''```'']
   \<and> preprocess_list_indentation isdigit_ascii (py ''```\<newline>~~~\<newline>  - x\<newline>```'')
       = Inr (py ''```\<newline>~~~\<newline>    - x\<newline>```'')
   \<and> split_on 0x0A (py ''```\<newline>~~~\<newline>    - x\<newline>```'') ! 2 \<noteq> py ''  - x''"
  by (simp add: closes_fence_def is_fence_line_def pp_eval)

text \<open>
  C4. The normalizer returns for every input, with as many lines as the input has. Each
  line of the result is the line of the input when that line is blank, a fence
  delimiter, inside a code block, an admonition opener, reached with the admonition flag
  set, not indented, opening with a backtick, \<open>#\<close> or \<open>>\<close>, or fails the test for
  reindentation; any other line has its indentation doubled.
\<close>

theorem C4_line_count_and_passthrough:
  "\<exists>result. preprocess_list_indentation isdigit content = Inr result
     \<and> length (split_on 0x0A result) = length (split_on 0x0A content)
     \<and> (\<forall>j<length (split_on 0x0A content).
          \<exists>s. state_before isdigit (split_on 0x0A content) j = Inr s
            \<and> split_on 0x0A result ! j =
                (if unchanged_kind isdigit (split_on 0x0A content) j s
                 then split_on 0x0A content ! j
                 else spaces (leading (split_on 0x0A content ! j) div 2 * 4)
                        @ lstrip (split_on 0x0A content ! j)))"
proof -
  from preprocess_run[of isdigit content] obtain out where out:
      "preprocess_list_indentation isdigit content = Inr (join [0x0A] out)"
      "split_on 0x0A (join [0x0A] out) = out"
      "length out = length (split_on 0x0A content)"
      "\<forall>k<length (split_on 0x0A content). \<exists>sk. state_before isdigit (split_on 0x0A content) k = Inr sk
             \<and> out ! k = emitted_line isdigit (split_on 0x0A content) k sk"
    by blast
  show ?thesis
    apply (rule exI[of _ "join [0x0A] out"])
    using out unfolding emitted_line_def by simp
qed

theorem C4_line_count_and_passthrough_witness:
  "\<exists>result. preprocess_list_indentation isdigit_ascii (py ''  - a\<newline>      - b'') = Inr result
     \<and> length (split_on 0x0A result) = 2
     \<and> split_on 0x0A result ! 0 = py ''    - a''"
proof -
  let ?C = "py ''  - a\<newline>      - b''"
  have L: "split_on 0x0A ?C = [py ''  - a'', py ''      - b'']"
    by (simp add: py_def)
  from C4_line_count_and_passthrough[of isdigit_ascii ?C]
  obtain result where r:
      "preprocess_list_indentation isdigit_ascii ?C = Inr result"
      "length (split_on 0x0A result) = length (split_on 0x0A ?C)"
      "\<forall>j<length (split_on 0x0A ?C).
          \<exists>s. state_before isdigit_ascii (split_on 0x0A ?C) j = Inr s
            \<and> split_on 0x0A result ! j =
                (if unchanged_kind isdigit_ascii (split_on 0x0A ?C) j s
                 then split_on 0x0A ?C ! j
                 else spaces (leading (split_on 0x0A ?C ! j) div 2 * 4)
                        @ lstrip (split_on 0x0A ?C ! j))"
    by blast
  have u: "\<not> unchanged_kind isdigit_ascii [py ''  - a'', py ''      - b''] 0 pp_init"
    by (simp add: unchanged_kind_def is_fence_line_def is_opener_line_def leading_def pp_eval)
  have e: "spaces (leading (py ''  - a'') div 2 * 4) @ lstrip (py ''  - a'') = py ''    - a''"
    by (simp add: leading_def pp_eval)
  from r(3) have "\<exists>s. state_before isdigit_ascii (split_on 0x0A ?C) 0 = Inr s
            \<and> split_on 0x0A result ! 0 =
                (if unchanged_kind isdigit_ascii (split_on 0x0A ?C) 0 s
                 then split_on 0x0A ?C ! 0
                 else spaces (leading (split_on 0x0A ?C ! 0) div 2 * 4)
                        @ lstrip (split_on 0x0A ?C ! 0))"
    unfolding L by simp
  then have "split_on 0x0A result ! 0 = py ''    - a''"
    unfolding L using u e by (simp add: state_before_0)
  with r(1,2) show ?thesis unfolding L by auto
qed

subsection \<open>Admonitions\<close>

lemmas state_eval = state_before_def pp_init_def pp_body_def emit_def
  strip_def lstrip_def rstrip_def isspace_def startswith_def py_def leading_def

lemma rstrip_Cons: "\<not> isspace x \<Longrightarrow> rstrip (x # xs) = x # rstrip xs"
  by (simp add: rstrip_def dropWhile_append)

lemma lstrip_first_not_space: "lstrip l = x # xs \<Longrightarrow> \<not> isspace x"
  unfolding lstrip_def by (simp add: dropWhile_eq_Cons_conv)

lemma strip_first: "lstrip l = x # xs \<Longrightarrow> strip l = x # rstrip xs"
  using lstrip_first_not_space[of l x xs] by (simp add: strip_def rstrip_Cons)

lemma startswith_Cons: "startswith s (c # p) \<Longrightarrow> \<exists>t. s = c # t"
  by (cases s) (auto simp: startswith_def)

lemma opener_first: "is_opener_line l \<Longrightarrow> \<exists>t. lstrip l = 0x21 # t"
  unfolding is_opener_line_def py_def by (auto dest: startswith_Cons)

lemma bullet_first:
  "startswith_bullet (lstrip l) \<Longrightarrow> \<exists>x t. lstrip l = x # t \<and> (x = 0x2A \<or> x = 0x2D \<or> x = 0x2B)"
  unfolding startswith_bullet_def py_def by (auto dest: startswith_Cons)

lemma fence_first:
  "is_fence_line l \<Longrightarrow> \<exists>x t. strip l = x # t \<and> (x = 0x60 \<or> x = 0x7E)"
  unfolding is_fence_line_def py_def by (auto dest: startswith_Cons)

lemma opener_not_blank_not_fence:
  assumes "is_opener_line l"
  shows "strip l \<noteq> []" and "\<not> is_fence_line l"
proof -
  from opener_first[OF assms] obtain t where t: "lstrip l = 0x21 # t" by blast
  then have s: "strip l = 0x21 # rstrip t" by (rule strip_first)
  then show "strip l \<noteq> []" by simp
  show "\<not> is_fence_line l" using fence_first[of l] s by auto
qed

lemma bullet_line_kind:
  assumes "is_bullet_line l"
  shows "\<not> is_fence_line l" and "\<not> is_opener_line l"
    and "\<not> startswith (lstrip l) (py ''`'')" and "\<not> startswith (lstrip l) (py ''#'')"
    and "\<not> startswith (lstrip l) (py ''>'')"
proof -
  from assms have "startswith_bullet (lstrip l)" by (simp add: is_bullet_line_def)
  from bullet_first[OF this] obtain x t where
    x: "lstrip l = x # t" "x = 0x2A \<or> x = 0x2D \<or> x = 0x2B" by blast
  from x(1) have s: "strip l = x # rstrip t" by (rule strip_first)
  show "\<not> is_fence_line l" using fence_first[of l] s x(2) by auto
  show "\<not> is_opener_line l" using opener_first[of l] x by auto
  show "\<not> startswith (lstrip l) (py ''`'')" using x by (auto simp: py_def dest: startswith_Cons)
  show "\<not> startswith (lstrip l) (py ''#'')" using x by (auto simp: py_def dest: startswith_Cons)
  show "\<not> startswith (lstrip l) (py ''>'')" using x by (auto simp: py_def dest: startswith_Cons)
qed

lemma admonition_persists:
  assumes sa: "state_before isdigit lines a = Inr sa" "\<not> in_code_block sa"
      "is_opener_line (lines ! a)"
    and noend: "\<forall>k. a < k \<and> k < j \<longrightarrow>
        (\<forall>sk. state_before isdigit lines k = Inr sk \<longrightarrow> \<not> ends_admonition (lines ! k) sk)"
    and j: "a < j" "j \<le> length lines"
  shows "\<exists>sj. state_before isdigit lines j = Inr sj \<and> in_admonition sj"
  using j noend
proof (induction j)
  case 0
  then show ?case by simp
next
  case (Suc j)
  then have jl: "j < length lines" by simp
  from state_before_run[of "Suc j" lines isdigit] Suc.prems(2)
  obtain s' where s': "state_before isdigit lines (Suc j) = Inr s'" by auto
  from state_before_run[of j lines isdigit] jl
  obtain sj where sj: "state_before isdigit lines j = Inr sj" by auto
  from s' sj state_before_Suc[OF jl, of isdigit]
  have body: "pp_body isdigit lines j (lines ! j) sj = Inr s'" by simp
  note adm = pp_body_adm[OF body]
  show ?case
  proof (cases "j = a")
    case True
    with sj sa(1) have "sj = sa" by simp
    with adm sa(2,3) True opener_not_blank_not_fence[OF sa(3)]
    have "in_admonition s'" by simp
    with s' show ?thesis by blast
  next
    case False
    with Suc.prems(1) have aj: "a < j" by simp
    have "\<forall>k. a < k \<and> k < j \<longrightarrow>
        (\<forall>sk. state_before isdigit lines k = Inr sk \<longrightarrow> \<not> ends_admonition (lines ! k) sk)"
      using Suc.prems(3) by simp
    from Suc.IH[OF aj _ this] jl sj have in_adm: "in_admonition sj" by simp
    have "\<not> ends_admonition (lines ! j) sj" using Suc.prems(3) aj sj by simp
    with adm in_adm have "in_admonition s'"
      by (auto simp: ends_admonition_def split: if_splits)
    with s' show ?thesis by blast
  qed
qed

lemma admonition_containment:
  assumes run: "preprocess_list_indentation isdigit content = Inr result"
    and sa: "state_before isdigit (split_on 0x0A content) a = Inr sa" "\<not> in_code_block sa"
      "is_opener_line (split_on 0x0A content ! a)"
    and j: "a < j" "j < length (split_on 0x0A content)"
    and noend: "\<forall>k. a < k \<and> k < j \<longrightarrow>
        (\<forall>sk. state_before isdigit (split_on 0x0A content) k = Inr sk \<longrightarrow>
           \<not> ends_admonition (split_on 0x0A content ! k) sk)"
  shows "split_on 0x0A result ! j = split_on 0x0A content ! j
    \<and> (\<exists>sj sj'. state_before isdigit (split_on 0x0A content) j = Inr sj \<and> in_admonition sj
          \<and> state_before isdigit (split_on 0x0A content) (Suc j) = Inr sj'
          \<and> in_admonition sj' = (\<not> ends_admonition (split_on 0x0A content ! j) sj))"
proof -
  let ?lines = "split_on 0x0A content"
  from preprocess_run[of isdigit content] obtain out where out:
      "preprocess_list_indentation isdigit content = Inr (join [0x0A] out)"
      "split_on 0x0A (join [0x0A] out) = out"
      "\<forall>k<length ?lines. \<exists>sk. state_before isdigit ?lines k = Inr sk
             \<and> out ! k = emitted_line isdigit ?lines k sk"
    by blast
  from out(1) run have r: "result = join [0x0A] out" by simp
  from admonition_persists[OF sa noend j(1)] j(2)
  obtain sj where sj: "state_before isdigit ?lines j = Inr sj" "in_admonition sj" by auto
  from out(3) j(2) sj(1) have "out ! j = emitted_line isdigit ?lines j sj" by auto
  with sj(2) have unchanged: "split_on 0x0A result ! j = ?lines ! j"
    using out(2) r by (simp add: emitted_line_def unchanged_kind_def)
  from state_before_run[of "Suc j" ?lines isdigit] j(2)
  obtain sj' where sj': "state_before isdigit ?lines (Suc j) = Inr sj'" by auto
  with sj(1) state_before_Suc[OF j(2), of isdigit]
  have body: "pp_body isdigit ?lines j (?lines ! j) sj = Inr sj'" by simp
  have "in_admonition sj' = (\<not> ends_admonition (?lines ! j) sj)"
    using pp_body_adm[OF body] sj(2) opener_not_blank_not_fence[of "?lines ! j"]
    by (auto simp: ends_admonition_def)
  with unchanged sj sj' show ?thesis by blast
qed

text \<open>
  C6. The admonition state is to be cleared by the first non-blank line without
  indentation after the opener, as the comment in the source says (``next non-indented,
  non-empty line''). The loop tests for fence delimiters first and goes on to the next
  line, so when that first line is the fence delimiter \<open>```\<close> the flag is still set
  after it: the list line after the fenced block is kept with its two spaces, while the
  same lines without the opener have it reindented.
\<close>

theorem C6_state_not_cleared_at_fence:
  "strip ([py ''!!! n'', py ''```'', py ''```'', py ''  - a''] ! 1) \<noteq> []
   \<and> leading ([py ''!!! n'', py ''```'', py ''```'', py ''  - a''] ! 1) = 0
   \<and> state_before isdigit_ascii [py ''!!! n'', py ''```'', py ''```'', py ''  - a''] 1
       = Inr \<lparr>processed_lines = [py ''!!! n''], in_admonition = True, in_code_block = False\<rparr>
   \<and> state_before isdigit_ascii [py ''!!! n'', py ''```'', py ''```'', py ''  - a''] 2
       = Inr \<lparr>processed_lines = [py ''!!! n'', py ''```''], in_admonition = True,
              in_code_block = True\<rparr>
   \<and> preprocess_list_indentation isdigit_ascii (py ''!!! n\<newline>```\<newline>```\<newline>  - a'')
       = Inr (py ''!!! n\<newline>```\<newline>```\<newline>  - a'')
   \<and> preprocess_list_indentation isdigit_ascii (py ''```\<newline>```\<newline>  - a'')
       = Inr (py ''```\<newline>```\<newline>    - a'')"
  by (simp add: state_eval pp_eval)

subsection \<open>A second pass\<close>

lemma join_split: "join [c] (split_on c s) = s"
proof (induction s)
  case Nil
  then show ?case by simp
next
  case (Cons x xs)
  obtain w ws where w: "split_on c xs = w # ws"
    using split_on_nonempty[of c xs] by (cases "split_on c xs") auto
  show ?case
  proof (cases "x = c")
    case True
    with Cons w show ?thesis by simp
  next
    case False
    with Cons w show ?thesis by (cases ws) auto
  qed
qed

lemma no_evidence_not_likely:
  assumes "\<forall>k<length lines. \<not> is_evidence_line (lines ! k)"
  shows "\<not> is_likely_2space_system lines i"
proof
  assume "is_likely_2space_system lines i"
  then obtain j where j: "max 0 (i - 5) \<le> j" "j < min (int (length lines)) (i + 5)"
      "is_evidence_line (lines ! nat j)"
    unfolding likely_iff by blast
  from j(1,2) have "nat j < length lines" by linarith
  with assms j(3) show False by blast
qed

lemma not_likely_unchanged:
  "\<not> is_likely_2space_system lines (int j) \<Longrightarrow> emitted_line isdigit lines j s = lines ! j"
  by (simp add: emitted_line_def unchanged_kind_def reindent_test_def)

lemma no_evidence_fixed:
  fixes content :: ustr
  assumes "\<forall>k<length (split_on 0x0A content). \<not> is_evidence_line (split_on 0x0A content ! k)"
  shows "preprocess_list_indentation isdigit content = Inr content"
proof -
  let ?lines = "split_on 0x0A content"
  from preprocess_run[of isdigit content] obtain out where out:
      "preprocess_list_indentation isdigit content = Inr (join [0x0A] out)"
      "length out = length ?lines"
      "\<forall>k<length ?lines. \<exists>sk. state_before isdigit ?lines k = Inr sk
             \<and> out ! k = emitted_line isdigit ?lines k sk"
    by blast
  have "out ! k = ?lines ! k" if "k < length ?lines" for k
    using out(3) that no_evidence_not_likely[OF assms] not_likely_unchanged by metis
  with out(2) have "out = ?lines" by (simp add: nth_equalityI)
  with out(1) show ?thesis by (simp add: join_split)
qed

lemma evidence_line_reindented:
  assumes ev: "is_evidence_line (lines ! j)" and j: "j < length lines"
    and s: "\<not> in_code_block s" "\<not> in_admonition s"
  shows "\<not> unchanged_kind isdigit lines j s"
proof -
  let ?l = "lines ! j"
  from ev have b: "is_bullet_line ?l" and m: "even (leading ?l)" "leading ?l mod 4 \<noteq> 0"
    by (simp_all add: is_evidence_line_def)
  from m(2) have pos: "leading ?l \<noteq> 0" by auto
  from b have nb: "strip ?l \<noteq> []" and sb: "startswith_bullet (lstrip ?l)"
    by (simp_all add: is_bullet_line_def)
  have "is_likely_2space_system lines (int j)"
    unfolding likely_iff using ev j by (intro exI[of _ "int j"]) simp
  with m(1) sb have "reindent_test isdigit lines j (lstrip ?l) (leading ?l) = Inr True"
    by (simp add: reindent_test_def)
  with nb pos s bullet_line_kind[OF b] show ?thesis
    by (simp add: unchanged_kind_def)
qed

lemma reindented_not_evidence:
  "\<not> is_evidence_line (spaces (n div 2 * 4) @ lstrip l)"
  by (simp add: is_evidence_line_def leading_spaces)

lemma output_no_evidence:
  assumes h: "no_hidden_evidence isdigit lines" and k: "k < length lines"
    and sk: "state_before isdigit lines k = Inr sk"
  shows "\<not> is_evidence_line (emitted_line isdigit lines k sk)"
proof (cases "unchanged_kind isdigit lines k sk")
  case True
  have "\<not> is_evidence_line (lines ! k)"
  proof
    assume ev: "is_evidence_line (lines ! k)"
    with h k sk have "\<not> in_code_block sk" "\<not> in_admonition sk"
      by (auto simp: no_hidden_evidence_def)
    from evidence_line_reindented[OF ev k this] True show False by blast
  qed
  with True show ?thesis by (simp add: emitted_line_def)
next
  case False
  then show ?thesis by (simp add: emitted_line_def reindented_not_evidence)
qed

lemma idempotent_no_hidden_evidence:
  "(no_hidden_evidence isdigit (split_on 0x0A content) \<longrightarrow>
      (\<exists>result. preprocess_list_indentation isdigit content = Inr result
         \<and> preprocess_list_indentation isdigit result = Inr result))
   \<and> ((\<forall>k<length (split_on 0x0A content). \<not> is_evidence_line (split_on 0x0A content ! k)) \<longrightarrow>
        preprocess_list_indentation isdigit content = Inr content)"
proof (intro conjI impI)
  let ?lines = "split_on 0x0A content"
  assume h: "no_hidden_evidence isdigit ?lines"
  from preprocess_run[of isdigit content] obtain out where out:
      "preprocess_list_indentation isdigit content = Inr (join [0x0A] out)"
      "split_on 0x0A (join [0x0A] out) = out"
      "length out = length ?lines"
      "\<forall>k<length ?lines. \<exists>sk. state_before isdigit ?lines k = Inr sk
             \<and> out ! k = emitted_line isdigit ?lines k sk"
    by blast
  have "\<not> is_evidence_line (out ! k)" if "k < length out" for k
  proof -
    from that out(3,4) obtain sk where "state_before isdigit ?lines k = Inr sk"
        "out ! k = emitted_line isdigit ?lines k sk" by auto
    with output_no_evidence[OF h] that out(3) show ?thesis by simp
  qed
  then have "\<forall>k<length (split_on 0x0A (join [0x0A] out)).
      \<not> is_evidence_line (split_on 0x0A (join [0x0A] out) ! k)"
    unfolding out(2) by simp
  then have "preprocess_list_indentation isdigit (join [0x0A] out) = Inr (join [0x0A] out)"
    by (rule no_evidence_fixed)
  with out(1) show "\<exists>result. preprocess_list_indentation isdigit content = Inr result
         \<and> preprocess_list_indentation isdigit result = Inr result"
    by blast
next
  assume "\<forall>k<length (split_on 0x0A content). \<not> is_evidence_line (split_on 0x0A content ! k)"
  then show "preprocess_list_indentation isdigit content = Inr content"
    by (rule no_evidence_fixed)
qed

lemma flag_has_opener:
  "j \<le> length lines \<Longrightarrow> state_before isdigit lines j = Inr sj \<Longrightarrow> in_admonition sj \<Longrightarrow>
     \<exists>a<j. is_opener_line (lines ! a) \<and> (\<forall>k. a < k \<and> k < j \<longrightarrow> \<not> ordinary_line lines k)"
proof (induction j arbitrary: sj)
  case 0
  then show ?case by (auto simp: state_before_0 pp_init_def)
next
  case (Suc j)
  then have jl: "j < length lines" by simp
  from state_before_run[of j lines isdigit] jl
  obtain s where s: "state_before isdigit lines j = Inr s" by auto
  from s Suc.prems(2) state_before_Suc[OF jl, of isdigit]
  have body: "pp_body isdigit lines j (lines ! j) s = Inr sj" by simp
  note adm = pp_body_adm[OF body]
  have code: "in_code_block s = odd (length (filter is_fence_line (take j lines)))"
    using state_before_code[OF _ s] jl by simp
  show ?case
  proof (cases "is_opener_line (lines ! j)")
    case True
    then have "is_opener_line (lines ! j) \<and> (\<forall>k. j < k \<and> k < Suc j \<longrightarrow> \<not> ordinary_line lines k)"
      by auto
    then show ?thesis by blast
  next
    case False
    with adm Suc.prems(3) have prev: "in_admonition s"
      and skip: "strip (lines ! j) = [] \<or> is_fence_line (lines ! j) \<or> in_code_block s
          \<or> leading (lines ! j) \<noteq> 0"
      by (auto split: if_splits)
    from Suc.IH[OF _ s prev] jl obtain a where a: "a < j" "is_opener_line (lines ! a)"
        "\<forall>k. a < k \<and> k < j \<longrightarrow> \<not> ordinary_line lines k"
      by auto
    from skip code have nj: "\<not> ordinary_line lines j"
      by (auto simp: ordinary_line_def)
    have "\<forall>k. a < k \<and> k < Suc j \<longrightarrow> \<not> ordinary_line lines k"
    proof (intro allI impI)
      fix k assume "a < k \<and> k < Suc j"
      then have "(a < k \<and> k < j) \<or> k = j" by auto
      with a(3) nj show "\<not> ordinary_line lines k" by blast
    qed
    with a(1,2) show ?thesis by (intro exI[of _ a]) simp
  qed
qed

lemma exposed_no_hidden:
  assumes "evidence_exposed lines"
  shows "no_hidden_evidence isdigit lines"
  unfolding no_hidden_evidence_def
proof (intro allI impI)
  fix j s
  assume j: "j < length lines" and ev: "is_evidence_line (lines ! j)"
    and s: "state_before isdigit lines j = Inr s"
  from assms j ev have par: "even (length (filter is_fence_line (take j lines)))"
    and sep: "\<forall>a<j. is_opener_line (lines ! a) \<longrightarrow> (\<exists>k. a < k \<and> k < j \<and> ordinary_line lines k)"
    by (auto simp: evidence_exposed_def)
  have c: "\<not> in_code_block s"
    using state_before_code[OF _ s] j par by simp
  have "\<not> in_admonition s"
  proof
    assume "in_admonition s"
    from flag_has_opener[OF _ s this] j obtain a where "a < j" "is_opener_line (lines ! a)"
        "\<forall>k. a < k \<and> k < j \<longrightarrow> \<not> ordinary_line lines k"
      by auto
    with sep show False by blast
  qed
  with c show "\<not> in_code_block s \<and> \<not> in_admonition s" by simp
qed

text \<open>
  C1, as amended. The normalizer is idempotent, its result being returned unchanged by
  a second pass, on every document in which each bullet line indented by an even amount
  that is not a multiple of 4 comes after an even number of fence delimiters and is
  separated from every admonition opener before it by a line of ordinary text without
  indentation. A text with no such bullet line at all, which is a text in the 4-space
  form, is returned unchanged.
\<close>

theorem C1_idempotent_when_evidence_exposed:
  "(evidence_exposed (split_on 0x0A content) \<longrightarrow>
      (\<exists>result. preprocess_list_indentation isdigit content = Inr result
         \<and> preprocess_list_indentation isdigit result = Inr result))
   \<and> ((\<forall>k<length (split_on 0x0A content). \<not> is_evidence_line (split_on 0x0A content ! k)) \<longrightarrow>
        preprocess_list_indentation isdigit content = Inr content)"
  using idempotent_no_hidden_evidence[of isdigit content]
    exposed_no_hidden[of "split_on 0x0A content" isdigit]
  by blast

theorem C1_idempotent_when_evidence_exposed_witness:
  "evidence_exposed (split_on 0x0A (py ''!!! n\<newline>  x\<newline>t\<newline>  - a''))
   \<and> preprocess_list_indentation isdigit_ascii (py ''!!! n\<newline>  x\<newline>t\<newline>  - a'')
       = Inr (py ''!!! n\<newline>  x\<newline>t\<newline>    - a'')
   \<and> preprocess_list_indentation isdigit_ascii (py ''!!! n\<newline>  x\<newline>t\<newline>    - a'')
       = Inr (py ''!!! n\<newline>  x\<newline>t\<newline>    - a'')
   \<and> \<not> is_evidence_line (py ''    - c'')
   \<and> preprocess_list_indentation isdigit_ascii (py ''    - c'') = Inr (py ''    - c'')"
proof -
  let ?C = "py ''!!! n\<newline>  x\<newline>t\<newline>  - a''"
  let ?R = "py ''!!! n\<newline>  x\<newline>t\<newline>    - a''"
  let ?L = "[py ''!!! n'', py ''  x'', py ''t'', py ''  - a'']"
  have L: "split_on 0x0A ?C = ?L"
    by (simp add: py_def)
  have e0: "\<not> is_evidence_line (py ''!!! n'')" and e1: "\<not> is_evidence_line (py ''  x'')"
    and e2: "\<not> is_evidence_line (py ''t'')"
    by (simp_all add: string_eval)
  have o0: "is_opener_line (py ''!!! n'')" and o1: "\<not> is_opener_line (py ''  x'')"
    and o2: "\<not> is_opener_line (py ''t'')"
    by (simp_all add: is_opener_line_def string_eval)
  have f: "filter is_fence_line ?L = []"
    by (simp add: is_fence_line_def string_eval)
  have t: "ordinary_line ?L 2"
    by (simp add: ordinary_line_def is_fence_line_def is_opener_line_def string_eval)
  have par: "even (length (filter is_fence_line (take j ?L)))" for j
  proof -
    have "set (take j ?L) \<subseteq> set ?L" by (rule set_take_subset)
    then have "filter is_fence_line (take j ?L) = []"
      using f unfolding filter_empty_conv by blast
    then show ?thesis by simp
  qed
  have h: "evidence_exposed (split_on 0x0A ?C)"
    unfolding evidence_exposed_def L
  proof (intro allI impI conjI)
    fix j assume "j < length ?L" "is_evidence_line (?L ! j)"
    show "even (length (filter is_fence_line (take j ?L)))" by (rule par)
  next
    fix j a
    assume j: "j < length ?L" and ev: "is_evidence_line (?L ! j)"
      and a: "a < j" and op: "is_opener_line (?L ! a)"
    from j have "j = 0 \<or> j = 1 \<or> j = 2 \<or> j = 3" by auto
    with ev e0 e1 e2 have j3: "j = 3" by auto
    with a have "a = 0 \<or> a = 1 \<or> a = 2" by auto
    with op o1 o2 have a0: "a = 0" by auto
    from t j3 a0 show "\<exists>k. a < k \<and> k < j \<and> ordinary_line ?L k"
      by (intro exI[of _ 2]) simp
  qed
  have run: "preprocess_list_indentation isdigit_ascii ?C = Inr ?R"
    by (simp add: pp_eval)
  have L4: "split_on 0x0A (py ''    - c'') = [py ''    - c'']"
    by (simp add: py_def)
  have ne: "\<not> is_evidence_line (py ''    - c'')"
    by (simp add: string_eval)
  then have "\<forall>k<length (split_on 0x0A (py ''    - c'')).
      \<not> is_evidence_line (split_on 0x0A (py ''    - c'') ! k)"
    unfolding L4 by simp
  with C1_idempotent_when_evidence_exposed[of "py ''    - c''" isdigit_ascii]
  have fixed: "preprocess_list_indentation isdigit_ascii (py ''    - c'') = Inr (py ''    - c'')"
    by blast
  from C1_idempotent_when_evidence_exposed[of ?C isdigit_ascii] h
  obtain result where "preprocess_list_indentation isdigit_ascii ?C = Inr result"
      "preprocess_list_indentation isdigit_ascii result = Inr result"
    by blast
  with run h ne fixed show ?thesis by simp
qed

text \<open>
  C1 as stated fails: the 2-space bullet line inside the fenced block is kept by every
  pass and is read by the detector as evidence of the 2-space convention, so each pass
  doubles the indentation of the bullet line after the block again (4, 8, 16 spaces).
\<close>

theorem C1_second_pass_changes_output:
  "preprocess_list_indentation isdigit_ascii (py ''~~~\<newline>  - x\<newline>~~~\<newline>    - y'')
     = Inr (py ''~~~\<newline>  - x\<newline>~~~\<newline>        - y'')
   \<and> preprocess_list_indentation isdigit_ascii (py ''~~~\<newline>  - x\<newline>~~~\<newline>        - y'')
     = Inr (py ''~~~\<newline>  - x\<newline>~~~\<newline>                - y'')
   \<and> py ''~~~\<newline>  - x\<newline>~~~\<newline>                - y''
     \<noteq> py ''~~~\<newline>  - x\<newline>~~~\<newline>        - y''"
  by (simp add: pp_eval)

end
